theory Spec2Isabelle
  imports Main "HOL-Library.Word" "HOL-Library.Sublist"
begin

section \<open>JavaScript strings\<close>

text \<open>
  A JavaScript string is a sequence of UTF-16 code units, and every string operation of
  the bridge (\<open>startsWith\<close>, \<open>includes\<close>, \<open>trimEnd\<close>, \<open>replace\<close> with a regular
  expression without the \<open>u\<close> flag) works on code units. A code unit is a 16-bit word;
  \<open>ascii\<close> embeds an ASCII literal.
\<close>

type_synonym jschar = "16 word"
type_synonym jsstring = "jschar list"

definition ascii :: "string \<Rightarrow> jsstring" where
  "ascii s = map (\<lambda>c. of_nat (of_char c)) s"

definition LF :: jschar where "LF = 0x0A"
definition CR :: jschar where "CR = 0x0D"
definition DQUOTE :: jschar where "DQUOTE = 0x22"
definition SLASH :: jschar where "SLASH = 0x2F"
definition BSLASH :: jschar where "BSLASH = 0x5C"

text \<open>ECMAScript \<open>LineTerminator\<close>: the characters after which \<open>^\<close> matches under the \<open>m\<close> flag.\<close>

definition is_line_terminator :: "jschar \<Rightarrow> bool" where
  "is_line_terminator c = (c = 0x0A \<or> c = 0x0D \<or> c = 0x2028 \<or> c = 0x2029)"

text \<open>
  ECMAScript \<open>WhiteSpace\<close> and \<open>LineTerminator\<close>: the class \<open>\s\<close> of a regular
  expression, and the characters \<open>trimEnd\<close> removes.
\<close>

definition is_white_space :: "jschar \<Rightarrow> bool" where
  "is_white_space c =
     (c = 0x09 \<or> c = 0x0A \<or> c = 0x0B \<or> c = 0x0C \<or> c = 0x0D \<or> c = 0x20 \<or> c = 0xA0
      \<or> c = 0x1680 \<or> (0x2000 \<le> c \<and> c \<le> 0x200A) \<or> c = 0x2028 \<or> c = 0x2029
      \<or> c = 0x202F \<or> c = 0x205F \<or> c = 0x3000 \<or> c = 0xFEFF)"

text \<open>\<open>s.startsWith(p)\<close> is \<open>prefix p s\<close>; \<open>s.includes(p)\<close>:\<close>

fun str_includes :: "jsstring \<Rightarrow> jsstring \<Rightarrow> bool" where
  "str_includes [] p = (p = [])"
| "str_includes (c # cs) p = (prefix p (c # cs) \<or> str_includes cs p)"

definition trimEnd :: "jsstring \<Rightarrow> jsstring" where
  "trimEnd s = rev (dropWhile is_white_space (rev s))"

section \<open>The output sanitizer\<close>

text \<open>
  \<open>str.replace(re, '')\<close> with a global, multiline regular expression that begins with
  \<open>^\<close>: the matches are found from left to right on the string as it is, each search
  starting where the last match ended. \<open>^\<close> holds at index 0 and after a line terminator.
  The matcher \<open>m\<close> gives the length of the match that starts at the head of its argument,
  0 for none. \<open>bol\<close> says whether \<open>^\<close> holds at the current index.
\<close>

function replace_bol :: "(jsstring \<Rightarrow> nat) \<Rightarrow> bool \<Rightarrow> jsstring \<Rightarrow> jsstring" where
  "replace_bol m bol [] = []"
| "replace_bol m bol (c # cs) =
     (let n = (if bol then m (c # cs) else 0)
      in if n = 0 then c # replace_bol m (is_line_terminator c) cs
         else replace_bol m (is_line_terminator ((c # cs) ! (n - 1))) (drop n (c # cs)))"
  by pat_completeness auto
termination
  by (relation "measure (\<lambda>(m, bol, s). length s)") auto

text \<open>An optional \<open>\n\<close> at the head of the rest: the length \<open>\n?\<close> matches.\<close>

definition opt_LF :: "jsstring \<Rightarrow> nat" where
  "opt_LF s = (if prefix [LF] s then 1 else 0)"

text \<open>\<open>/^sc3>\s*/gm\<close>\<close>

definition m_prompt :: "jsstring \<Rightarrow> nat" where
  "m_prompt s =
     (if prefix (ascii ''sc3>'') s
      then 4 + length (takeWhile is_white_space (drop 4 s)) else 0)"

text \<open>
  \<open>/^load\("\/tmp\/sc_eval_[^"]*"\);\n?/gm\<close>. The greedy \<open>[^"]*\<close> runs to the first
  double quote (or the end); a shorter run would leave a character other than a double
  quote where the pattern wants one, so backtracking finds nothing more.
\<close>

definition m_eval_load :: "jsstring \<Rightarrow> nat" where
  "m_eval_load s =
     (if prefix (ascii ''load('' @ [DQUOTE] @ ascii ''/tmp/sc_eval_'') s
      then (let r = drop 19 s;
                x = takeWhile (\<lambda>c. c \<noteq> DQUOTE) r;
                r' = drop (length x) r
            in if prefix ([DQUOTE] @ ascii '');'') r'
               then 19 + length x + 3 + opt_LF (drop 3 r') else 0)
      else 0)"

text \<open>
  \<open>/^load\("\/[^"]*startup\.scd"\);\n?/gm\<close>. The double quote of the pattern can only
  match the first double quote after \<open>load("/\<close>, so the run of \<open>[^"]*\<close> followed by
  \<open>startup.scd\<close> is all the text up to that quote.
\<close>

definition m_startup_load :: "jsstring \<Rightarrow> nat" where
  "m_startup_load s =
     (if prefix (ascii ''load('' @ [DQUOTE] @ ascii ''/'') s
      then (let r = drop 7 s;
                x = takeWhile (\<lambda>c. c \<noteq> DQUOTE) r;
                r' = drop (length x) r
            in if suffix (ascii ''startup.scd'') x \<and> prefix ([DQUOTE] @ ascii '');'') r'
               then 7 + length x + 3 + opt_LF (drop 3 r') else 0)
      else 0)"

text \<open>\<open>/^CmdPeriod\.run;\n?/gm\<close>\<close>

definition m_stop_echo :: "jsstring \<Rightarrow> nat" where
  "m_stop_echo s =
     (if prefix (ascii ''CmdPeriod.run;'') s then 14 + opt_LF (drop 14 s) else 0)"

text \<open>\<open>.replace(/\r\n/g, '\n')\<close> and \<open>.replace(/\r/g, '\n')\<close>\<close>

fun replace_crlf :: "jsstring \<Rightarrow> jsstring" where
  "replace_crlf (c # d # cs) =
     (if c = CR \<and> d = LF then LF # replace_crlf cs else c # replace_crlf (d # cs))"
| "replace_crlf cs = cs"

definition replace_cr :: "jsstring \<Rightarrow> jsstring" where
  "replace_cr s = map (\<lambda>c. if c = CR then LF else c) s"

definition sanitize :: "jsstring \<Rightarrow> jsstring" where
  "sanitize str =
     replace_cr (replace_crlf
       (replace_bol m_stop_echo True
         (replace_bol m_startup_load True
           (replace_bol m_eval_load True
             (replace_bol m_prompt True str)))))"

section \<open>Numbers and JSON strings in text\<close>

text \<open>
  A template literal prints an integer below \<open>10^21\<close> in magnitude as its decimal digits.
  \<open>Date.now()\<close> is an integer. \<open>evalCounter\<close> is a JavaScript number that starts at 0
  and changes by \<open>evalCounter++\<close> only: it holds the natural numbers up to \<open>2^53\<close>
  exactly, and there \<open>2^53 + 1\<close> rounds back to \<open>2^53\<close>, so the counter stays.
\<close>

definition js_incr :: "nat \<Rightarrow> nat" where
  "js_incr n = (if n < 2 ^ 53 then n + 1 else n)"

definition digit :: "nat \<Rightarrow> jschar" where
  "digit d = 0x30 + of_nat d"

function show_nat :: "nat \<Rightarrow> jsstring" where
  "show_nat n = (if n < 10 then [digit n] else show_nat (n div 10) @ [digit (n mod 10)])"
  by pat_completeness auto
termination
  by (relation "measure id") auto

definition show_int :: "int \<Rightarrow> jsstring" where
  "show_int i = (if i < 0 then ascii ''-'' @ show_nat (nat (- i)) else show_nat (nat i))"

text \<open>
  \<open>JSON.stringify\<close> of a string: double quotes around the code units, with the short
  escapes, \<open>\uXXXX\<close> (lower-case hexadecimal) for the other control characters and for a
  surrogate that has no partner, and everything else unchanged.
\<close>

definition hex_digit :: "nat \<Rightarrow> jschar" where
  "hex_digit d = (if d < 10 then 0x30 + of_nat d else 0x61 + of_nat (d - 10))"

definition hex4 :: "jschar \<Rightarrow> jsstring" where
  "hex4 c = map (\<lambda>k. hex_digit (unat c div 16 ^ k mod 16)) [3, 2, 1, 0]"

definition is_lead_surrogate :: "jschar \<Rightarrow> bool" where
  "is_lead_surrogate c = (0xD800 \<le> c \<and> c \<le> 0xDBFF)"

definition is_trail_surrogate :: "jschar \<Rightarrow> bool" where
  "is_trail_surrogate c = (0xDC00 \<le> c \<and> c \<le> 0xDFFF)"

definition json_unit :: "jschar \<Rightarrow> jsstring" where
  "json_unit c =
     (if c = 0x08 then BSLASH # ascii ''b''
      else if c = 0x09 then BSLASH # ascii ''t''
      else if c = 0x0A then BSLASH # ascii ''n''
      else if c = 0x0C then BSLASH # ascii ''f''
      else if c = 0x0D then BSLASH # ascii ''r''
      else if c = 0x22 then [BSLASH, DQUOTE]
      else if c = 0x5C then [BSLASH, BSLASH]
      else if c < 0x20 \<or> is_lead_surrogate c \<or> is_trail_surrogate c
           then BSLASH # ascii ''u'' @ hex4 c
      else [c])"

fun json_body :: "jsstring \<Rightarrow> jsstring" where
  "json_body [] = []"
| "json_body [c] = json_unit c"
| "json_body (c # d # cs) =
     (if is_lead_surrogate c \<and> is_trail_surrogate d then c # d # json_body cs
      else json_unit c @ json_body (d # cs))"

definition JSON_stringify :: "jsstring \<Rightarrow> jsstring" where
  "JSON_stringify s = [DQUOTE] @ json_body s @ [DQUOTE]"

section \<open>Paths\<close>

text \<open>
  \<open>path.join\<close> and \<open>path.resolve\<close> are Node's POSIX implementations. Both rest on
  \<open>normalizeString\<close>, which reads the path segment by segment: an empty segment and
  \<open>.\<close> are dropped, \<open>..\<close> removes the segment before it when there is one that is not
  \<open>..\<close> itself (else it is kept if \<open>allowAboveRoot\<close>, dropped if not), and any other
  segment is appended.
\<close>

fun split_sep :: "jsstring \<Rightarrow> jsstring list" where
  "split_sep [] = [[]]"
| "split_sep (c # cs) =
     (if c = SLASH then [] # split_sep cs
      else (case split_sep cs of [] \<Rightarrow> [[c]] | seg # segs \<Rightarrow> (c # seg) # segs))"

fun join_sep :: "jsstring list \<Rightarrow> jsstring" where
  "join_sep [] = []"
| "join_sep [seg] = seg"
| "join_sep (seg # seg' # segs) = seg @ SLASH # join_sep (seg' # segs)"

fun norm_segs :: "bool \<Rightarrow> jsstring list \<Rightarrow> jsstring list \<Rightarrow> jsstring list" where
  "norm_segs allowAboveRoot res [] = res"
| "norm_segs allowAboveRoot res (seg # segs) =
     (if seg = [] \<or> seg = ascii ''.'' then norm_segs allowAboveRoot res segs
      else if seg = ascii ''..''
      then (if res \<noteq> [] \<and> last res \<noteq> ascii ''..''
            then norm_segs allowAboveRoot (butlast res) segs
            else if allowAboveRoot then norm_segs allowAboveRoot (res @ [seg]) segs
            else norm_segs allowAboveRoot res segs)
      else norm_segs allowAboveRoot (res @ [seg]) segs)"

definition normalizeString :: "jsstring \<Rightarrow> bool \<Rightarrow> jsstring" where
  "normalizeString path allowAboveRoot = join_sep (norm_segs allowAboveRoot [] (split_sep path))"

definition path_normalize :: "jsstring \<Rightarrow> jsstring" where
  "path_normalize path =
     (if path = [] then ascii ''.''
      else (let isAbsolute = (hd path = SLASH);
                trailingSeparator = (last path = SLASH);
                p = normalizeString path (\<not> isAbsolute)
            in if p = []
               then (if isAbsolute then ascii ''/''
                     else if trailingSeparator then ascii ''./'' else ascii ''.'')
               else (let p' = (if trailingSeparator then p @ [SLASH] else p)
                     in if isAbsolute then SLASH # p' else p')))"

text \<open>\<open>path.join(a, b)\<close>: the arguments that are not empty, with \<open>/\<close> between, normalized.\<close>

definition path_join :: "jsstring \<Rightarrow> jsstring \<Rightarrow> jsstring" where
  "path_join a b =
     (if a = [] \<and> b = [] then ascii ''.''
      else if a = [] then path_normalize b
      else if b = [] then path_normalize a
      else path_normalize (a @ SLASH # b))"

text \<open>
  \<open>path.resolve(a, b)\<close>: from the right, arguments are put in front until the path is
  absolute; the working directory \<open>cwd\<close> is used when neither is.
\<close>

definition path_resolve :: "jsstring \<Rightarrow> jsstring \<Rightarrow> jsstring \<Rightarrow> jsstring" where
  "path_resolve cwd a b =
     (let r1 = (if b = [] then [] else b @ [SLASH]);
          abs1 = (b \<noteq> [] \<and> hd b = SLASH);
          r2 = (if abs1 \<or> a = [] then r1 else a @ SLASH # r1);
          abs2 = (abs1 \<or> (a \<noteq> [] \<and> hd a = SLASH));
          r3 = (if abs2 \<or> cwd = [] then r2 else cwd @ SLASH # r2);
          abs3 = (abs2 \<or> (cwd \<noteq> [] \<and> hd cwd = SLASH));
          p = normalizeString r3 (\<not> abs3)
      in if abs3 then SLASH # p else if p = [] then ascii ''.'' else p)"

section \<open>The bridge\<close>

text \<open>
  The module-level variables of the bridge are the fields of \<open>bridge\<close>. \<open>clients\<close> is
  the \<open>Set\<close> of sockets in insertion order; a socket has the \<open>readyState\<close> of the
  \<open>ws\<close> library (1 is OPEN). \<open>sclangProc\<close> is the handle of the child, \<open>None\<close> for
  \<open>null\<close>. The staging directory \<open>EVAL_DIR\<close> is \<open>os.tmpdir()\<close>, fixed when the
  module is loaded: it is the argument \<open>tmp\<close> of the functions below.
\<close>

record ws =
  ws_id :: nat
  readyState :: nat

record bridge =
  clients :: "ws list"
  evalCounter :: nat
  sclangProc :: "nat option"
  sclangAlive :: bool
  startupSent :: bool

definition STARTUP_SCD :: jsstring where
  "STARTUP_SCD = ascii ''/home/scuser/sc/startup.scd''"

definition HELP_DIR :: jsstring where
  "HELP_DIR = ascii ''/usr/local/share/SuperCollider/Help''"

text \<open>The two messages the bridge sends: \<open>{type:'post', text}\<close> and \<open>{type:'status', connected}\<close>.\<close>

datatype out_msg = Post jsstring | Status bool

text \<open>
  What a handler does to the outside: \<open>ws.send\<close> on one socket, a \<open>broadcast\<close> call with
  the sockets it sends to, a write to the child's stdin, \<open>fs.writeFileSync\<close>, the two
  timers, \<open>spawn\<close>, and \<open>fs.unlinkSync\<close>. What the bridge prints for its operator
  (\<open>console.log\<close>, \<open>console.warn\<close>, \<open>console.error\<close>, \<open>process.stdout.write\<close>) is
  left out, and the calls into the operating system are taken to succeed.
\<close>

datatype effect =
    Send nat out_msg
  | Broadcast out_msg "nat list"
  | StdinWrite nat jsstring
  | WriteFile jsstring jsstring
  | SetTimeoutUnlink jsstring nat
  | SetTimeoutStart nat
  | Spawn nat
  | UnlinkSync jsstring

datatype error = TypeError

definition broadcast :: "bridge \<Rightarrow> out_msg \<Rightarrow> effect" where
  "broadcast s obj = Broadcast obj (map ws_id (filter (\<lambda>w. readyState w = 1) (clients s)))"

definition load_cmd :: "jsstring \<Rightarrow> jsstring" where
  "load_cmd file = ascii ''load('' @ JSON_stringify file @ ascii '');'' @ [LF]"

definition eval_name :: "int \<Rightarrow> nat \<Rightarrow> jsstring" where
  "eval_name now n = ascii ''sc_eval_'' @ show_int now @ ascii ''_'' @ show_nat n @ ascii ''.scd''"

definition wrap_block :: "jsstring \<Rightarrow> jsstring" where
  "wrap_block code = ascii ''('' @ [LF] @ trimEnd code @ [LF] @ ascii '')'' @ [LF]"

text \<open>
  \<open>evalCode(code)\<close>. \<open>now\<close> is what \<open>Date.now()\<close> returns. \<open>code\<close> is \<open>None\<close> when
  \<open>msg.code\<close> is not a string: then \<open>code.trimEnd()\<close> throws, after the counter was
  incremented. With \<open>sclangProc\<close> null, \<open>sclangProc.stdin\<close> throws after the file was
  written. The third component is the exception that leaves the function, if any.
\<close>

definition evalCode ::
  "jsstring \<Rightarrow> bridge \<Rightarrow> int \<Rightarrow> jsstring option \<Rightarrow> bridge \<times> effect list \<times> error option" where
  "evalCode tmp s now code =
     (let file = path_join tmp (eval_name now (evalCounter s));
          s' = s\<lparr>evalCounter := js_incr (evalCounter s)\<rparr>
      in case code of
           None \<Rightarrow> (s', [], Some TypeError)
         | Some c \<Rightarrow>
             (case sclangProc s of
                None \<Rightarrow> (s', [WriteFile file (wrap_block c)], Some TypeError)
              | Some p \<Rightarrow>
                  (s', [WriteFile file (wrap_block c), StdinWrite p (load_cmd file),
                        SetTimeoutUnlink file 15000], None)))"

definition compile_marker :: jsstring where
  "compile_marker = ascii ''compile done''"

definition boot_marker :: jsstring where
  "boot_marker = ascii ''=== SuperCollider server booted ===''"

text \<open>\<open>startSclang()\<close>; \<open>h\<close> is the handle \<open>spawn\<close> returns.\<close>

definition startSclang :: "bridge \<Rightarrow> nat \<Rightarrow> bridge \<times> effect list" where
  "startSclang s h = (s\<lparr>sclangProc := Some h, startupSent := False\<rparr>, [Spawn h])"

text \<open>
  \<open>handleOutput(stream, data)\<close>, with \<open>raw = data.toString()\<close>. It reads and writes the
  module's variables only, so it is the same function for every child. An exception
  here is not caught by anything: the result is \<open>Inl\<close>.
\<close>

definition handleOutput :: "bridge \<Rightarrow> jsstring \<Rightarrow> error + bridge \<times> effect list" where
  "handleOutput s raw =
     (case (if \<not> startupSent s \<and> str_includes raw compile_marker
            then (case sclangProc s of
                    None \<Rightarrow> Inl TypeError
                  | Some p \<Rightarrow> Inr (s\<lparr>startupSent := True\<rparr>, [StdinWrite p (load_cmd STARTUP_SCD)]))
            else Inr (s, [])) of
        Inl err \<Rightarrow> Inl err
      | Inr (s1, fx1) \<Rightarrow>
          (let (s2, fx2) =
                 (if \<not> sclangAlive s1 \<and> str_includes raw boot_marker
                  then (s1\<lparr>sclangAlive := True\<rparr>, [broadcast s1 (Status True)])
                  else (s1, []));
               text = sanitize raw;
               fx3 = (if text \<noteq> [] then [broadcast s2 (Post text)] else [])
           in Inr (s2, fx1 @ fx2 @ fx3)))"

text \<open>The \<open>'exit'\<close> handler; \<open>exitCode\<close> and \<open>signal\<close> are \<open>null\<close> when \<open>None\<close>.\<close>

definition exit_msg :: "int option \<Rightarrow> jsstring option \<Rightarrow> jsstring" where
  "exit_msg exitCode signal =
     [LF] @ ascii ''[sclang exited: code=''
     @ (case exitCode of None \<Rightarrow> ascii ''null'' | Some n \<Rightarrow> show_int n)
     @ ascii '' signal=''
     @ (case signal of None \<Rightarrow> ascii ''null'' | Some sg \<Rightarrow> sg)
     @ ascii ''] restarting in 3 s'' @ [0x2026, LF]"

definition on_exit :: "bridge \<Rightarrow> int option \<Rightarrow> jsstring option \<Rightarrow> bridge \<times> effect list" where
  "on_exit s exitCode signal =
     (let s1 = s\<lparr>sclangAlive := False\<rparr>
      in (s1\<lparr>sclangProc := None\<rparr>,
          [broadcast s1 (Post (exit_msg exitCode signal)), broadcast s1 (Status False),
           SetTimeoutStart 3000]))"

text \<open>
  A client message after \<open>JSON.parse\<close>: \<open>Unparseable\<close> when parsing throws or gives
  \<open>null\<close>, \<open>Eval code\<close> for type \<open>eval\<close> (\<open>code\<close> is \<open>None\<close> when \<open>msg.code\<close> is not
  a string), \<open>Stop\<close> for type \<open>stop\<close>, \<open>Other\<close> for anything else.
\<close>

datatype client_msg = Unparseable | Eval "jsstring option" | Stop | Other

definition not_ready :: jsstring where
  "not_ready = ascii ''[bridge] sclang not ready'' @ [LF]"

definition stop_cmd :: jsstring where
  "stop_cmd = ascii ''CmdPeriod.run;'' @ [LF]"

text \<open>
  The \<open>'connection'\<close> handler and the handlers it installs on the socket. Whatever is
  thrown inside the \<open>'message'\<close> handler is caught there.
\<close>

definition on_connection :: "bridge \<Rightarrow> nat \<Rightarrow> bridge \<times> effect list" where
  "on_connection s c =
     (s\<lparr>clients := (if c \<in> ws_id ` set (clients s) then clients s
                     else clients s @ [\<lparr>ws_id = c, readyState = 1\<rparr>])\<rparr>,
      [Send c (Status (sclangAlive s))])"

definition on_message :: "jsstring \<Rightarrow> bridge \<Rightarrow> nat \<Rightarrow> int \<Rightarrow> client_msg \<Rightarrow> bridge \<times> effect list" where
  "on_message tmp s c now msg =
     (case msg of
        Unparseable \<Rightarrow> (s, [])
      | Eval code \<Rightarrow>
          (if \<not> sclangAlive s then (s, [Send c (Post not_ready)])
           else (case evalCode tmp s now code of (s', fx, thrown) \<Rightarrow> (s', fx)))
      | Stop \<Rightarrow>
          (if sclangAlive s
           then (case sclangProc s of None \<Rightarrow> (s, []) | Some p \<Rightarrow> (s, [StdinWrite p stop_cmd]))
           else (s, []))
      | Other \<Rightarrow> (s, []))"

definition on_close :: "bridge \<Rightarrow> nat \<Rightarrow> bridge \<times> effect list" where
  "on_close s c = (s\<lparr>clients := filter (\<lambda>w. ws_id w \<noteq> c) (clients s)\<rparr>, [])"

text \<open>
  The events of the event loop. \<open>ReadyState c r\<close> is the \<open>ws\<close> library changing the state
  of socket \<open>c\<close>; \<open>UnlinkTimer f\<close> is the 15-second timer of \<open>evalCode\<close> firing;
  \<open>StartSclang h\<close> is \<open>startSclang\<close> run at start-up or by the 3-second timer.
\<close>

datatype event =
    StartSclang nat
  | Output jsstring
  | Exit "int option" "jsstring option"
  | Connection nat
  | Message nat int client_msg
  | Close nat
  | ReadyState nat nat
  | UnlinkTimer jsstring

definition step :: "jsstring \<Rightarrow> bridge \<Rightarrow> event \<Rightarrow> error + bridge \<times> effect list" where
  "step tmp s e =
     (case e of
        StartSclang h \<Rightarrow> Inr (startSclang s h)
      | Output raw \<Rightarrow> handleOutput s raw
      | Exit exitCode signal \<Rightarrow> Inr (on_exit s exitCode signal)
      | Connection c \<Rightarrow> Inr (on_connection s c)
      | Message c now msg \<Rightarrow> Inr (on_message tmp s c now msg)
      | Close c \<Rightarrow> Inr (on_close s c)
      | ReadyState c r \<Rightarrow>
          Inr (s\<lparr>clients := map (\<lambda>w. if ws_id w = c then w\<lparr>readyState := r\<rparr> else w) (clients s)\<rparr>, [])
      | UnlinkTimer f \<Rightarrow> Inr (s, [UnlinkSync f]))"

text \<open>
  A run of the event loop: the effects in order, and the state at the end, or the
  exception that ended the process.
\<close>

fun run :: "jsstring \<Rightarrow> bridge \<Rightarrow> event list \<Rightarrow> (error + bridge) \<times> effect list" where
  "run tmp s [] = (Inr s, [])"
| "run tmp s (e # es) =
     (case step tmp s e of
        Inl err \<Rightarrow> (Inl err, [])
      | Inr (s', fx) \<Rightarrow> (case run tmp s' es of (r, fx') \<Rightarrow> (r, fx @ fx')))"

definition init :: bridge where
  "init = \<lparr>clients = [], evalCounter = 0, sclangProc = None, sclangAlive = False,
            startupSent = False\<rparr>"

section \<open>The help server\<close>

text \<open>
  The HTTP handler. \<open>ex\<close> is \<open>fs.existsSync\<close>. \<open>ReadFile p\<close> is the call
  \<open>fs.readFile(p, ...)\<close>, whose callback answers 404 when the read fails and 200 with
  the file's bytes when it succeeds.
\<close>

datatype http_response = NotFound404 | Forbidden403 | ReadFile jsstring

fun entry_point :: "(jsstring \<Rightarrow> bool) \<Rightarrow> jsstring list \<Rightarrow> jsstring \<Rightarrow> jsstring" where
  "entry_point ex [] rel = rel"
| "entry_point ex (name # names) rel =
     (if ex (path_join HELP_DIR name) then SLASH # name else entry_point ex names rel)"

definition help_filePath :: "(jsstring \<Rightarrow> bool) \<Rightarrow> jsstring \<Rightarrow> jsstring \<Rightarrow> jsstring" where
  "help_filePath ex cwd url =
     (let rel0 = drop 5 url;
          rel1 = (if rel0 = [] then ascii ''/'' else rel0);
          rel = (if rel1 = ascii ''/''
                 then entry_point ex [ascii ''Help.html'', ascii ''index.html''] rel1
                 else rel1)
      in path_resolve cwd HELP_DIR (dropWhile (\<lambda>c. c = SLASH) rel))"

definition http_handler :: "(jsstring \<Rightarrow> bool) \<Rightarrow> jsstring \<Rightarrow> jsstring \<Rightarrow> http_response" where
  "http_handler ex cwd url =
     (if \<not> prefix (ascii ''/help'') url then NotFound404
      else
        (let filePath = help_filePath ex cwd url
         in if \<not> prefix (HELP_DIR @ [SLASH]) filePath \<and> filePath \<noteq> HELP_DIR
            then Forbidden403
            else ReadFile filePath))"

section \<open>Observations on traces\<close>

text \<open>Whether an effect delivers a message to socket \<open>c\<close>, and whether an event comes from it.\<close>

fun receives :: "nat \<Rightarrow> effect \<Rightarrow> bool" where
  "receives c (Send d m) = (d = c)"
| "receives c (Broadcast m ds) = (c \<in> set ds)"
| "receives c f = False"

fun about :: "nat \<Rightarrow> event \<Rightarrow> bool" where
  "about c (Connection d) = (d = c)"
| "about c (Message d now m) = (d = c)"
| "about c (Close d) = (d = c)"
| "about c (ReadyState d r) = (d = c)"
| "about c e = False"

fun is_post :: "effect \<Rightarrow> bool" where
  "is_post (Broadcast (Post t) ds) = True"
| "is_post f = False"

fun is_status_true :: "effect \<Rightarrow> bool" where
  "is_status_true (Broadcast (Status b) ds) = b"
| "is_status_true f = False"


fun is_exit :: "event \<Rightarrow> bool" where
  "is_exit (Exit exitCode signal) = True"
| "is_exit e = False"

fun boots :: "event \<Rightarrow> bool" where
  "boots (Output raw) = str_includes raw boot_marker"
| "boots e = False"

text \<open>
  The number of \<open>eval\<close> requests with a code string that arrive in a run while
  \<open>sclangAlive\<close> is set: the requests the message handler passes to \<open>evalCode\<close>.
\<close>

fun accepted_eval :: "bridge \<Rightarrow> event \<Rightarrow> bool" where
  "accepted_eval s (Message c now (Eval (Some code))) = sclangAlive s"
| "accepted_eval s e = False"

fun accepted_evals :: "jsstring \<Rightarrow> bridge \<Rightarrow> event list \<Rightarrow> nat" where
  "accepted_evals tmp s [] = 0"
| "accepted_evals tmp s (e # es) =
     (case step tmp s e of
        Inl err \<Rightarrow> 0
      | Inr (s', fx) \<Rightarrow> (if accepted_eval s e then 1 else 0) + accepted_evals tmp s' es)"

fun written_files :: "effect list \<Rightarrow> jsstring list" where
  "written_files [] = []"
| "written_files (WriteFile f body # fx) = f # written_files fx"
| "written_files (g # fx) = written_files fx"




text \<open>A path segment that names an entry: not empty, not \<open>.\<close>, not \<open>..\<close>, without \<open>/\<close>.\<close>

definition is_segment :: "jsstring \<Rightarrow> bool" where
  "is_segment seg = (seg \<noteq> [] \<and> seg \<noteq> ascii ''.'' \<and> seg \<noteq> ascii ''..'' \<and> SLASH \<notin> set seg)"

section \<open>Properties\<close>

subsection \<open>Runs\<close>

lemma run_append:
  "run tmp s (es @ es') =
     (case run tmp s es of
        (Inl err, fx) \<Rightarrow> (Inl err, fx)
      | (Inr s', fx) \<Rightarrow> (case run tmp s' es' of (r, fx') \<Rightarrow> (r, fx @ fx')))"
  by (induction es arbitrary: s) (auto split: sum.splits prod.splits)

lemma handleOutput_clients:
  "handleOutput s raw = Inr (s', fx) \<Longrightarrow> clients s' = clients s"
  by (auto simp: handleOutput_def Let_def split: if_splits option.splits)

lemma handleOutput_receivers:
  "handleOutput s raw = Inr (s', fx) \<Longrightarrow> c \<notin> ws_id ` set (clients s) \<Longrightarrow> f \<in> set fx \<Longrightarrow> \<not> receives c f"
  by (auto simp: handleOutput_def Let_def broadcast_def split: if_splits option.splits)

lemma step_stranger:
  assumes "step tmp s e = Inr (s', fx)" and "c \<notin> ws_id ` set (clients s)" and "\<not> about c e"
  shows "c \<notin> ws_id ` set (clients s') \<and> (\<forall>f\<in>set fx. \<not> receives c f)"
proof (cases e)
  case (Output raw)
  with assms show ?thesis
    using handleOutput_clients [of s raw s' fx] handleOutput_receivers [of s raw s' fx c]
    by (auto simp: step_def)
next
  case (Message d now m)
  with assms show ?thesis
    by (cases m) (auto simp: step_def on_message_def evalCode_def Let_def split: if_splits option.splits)
qed (use assms in \<open>auto simp: step_def startSclang_def on_exit_def on_connection_def on_close_def broadcast_def Let_def split: if_splits\<close>)

lemma run_stranger:
  "c \<notin> ws_id ` set (clients s) \<Longrightarrow> \<forall>e\<in>set es. \<not> about c e \<Longrightarrow> run tmp s es = (r, fx) \<Longrightarrow>
   (\<forall>f\<in>set fx. \<not> receives c f)"
proof (induction es arbitrary: s r fx)
  case Nil
  then show ?case by simp
next
  case (Cons e es)
  show ?case
  proof (cases "step tmp s e")
    case (Inl err)
    with Cons.prems show ?thesis by simp
  next
    case (Inr q)
    obtain s1 fx1 where q: "q = (s1, fx1)" by (cases q)
    obtain r2 fx2 where r2: "run tmp s1 es = (r2, fx2)" by (cases "run tmp s1 es")
    from Inr q Cons.prems have st: "c \<notin> ws_id ` set (clients s1) \<and> (\<forall>f\<in>set fx1. \<not> receives c f)"
      using step_stranger [of tmp s e s1 fx1 c] by simp
    with Cons.IH [of s1 r2 fx2] r2 Cons.prems have "\<forall>f\<in>set fx2. \<not> receives c f" by simp
    moreover from Inr q r2 Cons.prems have "fx = fx1 @ fx2" by simp
    ultimately show ?thesis using st by auto
  qed
qed

text \<open>
  The flag \<open>sclangAlive\<close> comes with a child handle as long as no output of a child is
  delivered while \<open>sclangProc\<close> is null (that is, after the \<open>'exit'\<close> event of the child
  and before the next spawn).
\<close>

lemma alive_has_child:
  assumes "step tmp s e = Inr (s', fx)" and "sclangAlive s \<longrightarrow> sclangProc s \<noteq> None"
    and "\<forall>raw. e = Output raw \<longrightarrow> sclangProc s \<noteq> None"
  shows "sclangAlive s' \<longrightarrow> sclangProc s' \<noteq> None"
proof (cases e)
  case (Output raw)
  with assms show ?thesis
    by (auto simp: step_def handleOutput_def Let_def split: if_splits option.splits)
next
  case (Message d now m)
  with assms show ?thesis
    by (cases m) (auto simp: step_def on_message_def evalCode_def Let_def split: if_splits option.splits)
qed (use assms in \<open>auto simp: step_def startSclang_def on_exit_def on_connection_def on_close_def Let_def\<close>)

subsection \<open>Requests of clients\<close>

text \<open>
  C5. An \<open>eval\<close> request that arrives while \<open>sclangAlive\<close> is false is rejected: the
  only effect is the notice \<open>[bridge] sclang not ready\<close> sent to the socket the request
  came from. Nothing is broadcast, no file is written, nothing is written to the child,
  and the state of the bridge (the counter included) is unchanged. This holds whatever
  \<open>msg.code\<close> is.
\<close>

theorem eval_rejected_when_not_alive:
  "\<not> sclangAlive s \<Longrightarrow>
   step tmp s (Message c now (Eval code)) =
     Inr (s, [Send c (Post (ascii ''[bridge] sclang not ready'' @ [LF]))])"
  by (simp add: step_def on_message_def not_ready_def)

theorem eval_rejected_when_not_alive_witness:
  "\<not> sclangAlive init \<and>
   step (ascii ''/tmp'') init (Message 1 1234 (Eval (Some (ascii ''1 + 1;'')))) =
     Inr (init, [Send 1 (Post (ascii ''[bridge] sclang not ready'' @ [LF]))])"
  using eval_rejected_when_not_alive [of init "ascii ''/tmp''" 1 1234 "Some (ascii ''1 + 1;'')"]
  by (simp add: init_def)

lemma stop_message:
  "(sclangAlive s \<and> sclangProc s = Some p \<longrightarrow>
      step tmp s (Message c now Stop) = Inr (s, [StdinWrite p (ascii ''CmdPeriod.run;'' @ [LF])]))
   \<and> (sclangAlive s \<and> sclangProc s = None \<longrightarrow> step tmp s (Message c now Stop) = Inr (s, []))
   \<and> (\<not> sclangAlive s \<longrightarrow> step tmp s (Message c now Stop) = Inr (s, []))"
  by (simp add: step_def on_message_def stop_cmd_def)

text \<open>
  C6. The bridge can hold \<open>sclangAlive\<close> true without a child. When the last output of a
  child is delivered after its \<open>'exit'\<close> event and contains the boot marker,
  \<open>handleOutput\<close> sets \<open>sclangAlive\<close> and broadcasts \<open>connected = true\<close> although
  \<open>sclangProc\<close> is null. A \<open>stop\<close> message that arrives then writes nothing:
  \<open>sclangProc.stdin\<close> throws, the handler catches it, and the run below ends without
  a \<open>CmdPeriod.run;\<close> line written to any child.
\<close>

theorem stop_alive_without_child:
  "run (ascii ''/tmp'') init
      [StartSclang 7, Connection 1, Output (ascii ''compile done''), Exit (Some 1) None,
       Output (ascii ''=== SuperCollider server booted ===''), Message 1 1234 Stop]
    = (Inr \<lparr>clients = [\<lparr>ws_id = 1, readyState = 1\<rparr>], evalCounter = 0, sclangProc = None,
            sclangAlive = True, startupSent = True\<rparr>,
       [Spawn 7, Send 1 (Status False), StdinWrite 7 (load_cmd STARTUP_SCD),
        Broadcast (Post (ascii ''compile done'')) [1],
        Broadcast (Post (exit_msg (Some 1) None)) [1], Broadcast (Status False) [1],
        SetTimeoutStart 3000,
        Broadcast (Status True) [1],
        Broadcast (Post (ascii ''=== SuperCollider server booted ==='')) [1]])"
  by code_simp

theorem stop_alive_without_child_witness:
  "fst (run (ascii ''/tmp'') init
      [StartSclang 7, Connection 1, Output (ascii ''compile done''), Exit (Some 1) None,
       Output (ascii ''=== SuperCollider server booted ===''), Message 1 1234 Stop])
    = Inr \<lparr>clients = [\<lparr>ws_id = 1, readyState = 1\<rparr>], evalCounter = 0, sclangProc = None,
            sclangAlive = True, startupSent = True\<rparr>"
  by (simp only: stop_alive_without_child fst_conv)

text \<open>
  C7. When a client connects, the handler sends it one \<open>status\<close> message whose
  \<open>connected\<close> field is \<open>sclangAlive\<close> at that moment, and nothing else. In a run from
  the initial state in which the socket has not occurred before, no earlier effect
  reached it (no \<open>post\<close> is replayed): the status message is the first it receives.
\<close>

theorem first_message_is_status:
  assumes "\<forall>e\<in>set es. \<not> about c e" and "run tmp init es = (Inr s, fx)"
  shows "snd (run tmp init (es @ [Connection c])) = fx @ [Send c (Status (sclangAlive s))]
         \<and> filter (receives c) fx = []"
proof -
  have "c \<notin> ws_id ` set (clients init)" by (simp add: init_def)
  with assms have "\<forall>f\<in>set fx. \<not> receives c f" using run_stranger by blast
  then have "filter (receives c) fx = []" by (simp add: filter_empty_conv)
  moreover have "snd (run tmp init (es @ [Connection c])) = fx @ [Send c (Status (sclangAlive s))]"
    using assms(2) by (simp add: run_append step_def on_connection_def)
  ultimately show ?thesis by blast
qed

lemma example_boot:
  "run (ascii ''/tmp'') init
     [StartSclang 7, Connection 1, Output (ascii ''compile done''),
      Output (ascii ''=== SuperCollider server booted ==='')]
   = (Inr \<lparr>clients = [\<lparr>ws_id = 1, readyState = 1\<rparr>], evalCounter = 0, sclangProc = Some 7,
           sclangAlive = True, startupSent = True\<rparr>,
      [Spawn 7, Send 1 (Status False),
       StdinWrite 7 (ascii ''load('' @ [DQUOTE] @ ascii ''/home/scuser/sc/startup.scd''
                     @ [DQUOTE] @ ascii '');'' @ [LF]),
       Broadcast (Post (ascii ''compile done'')) [1], Broadcast (Status True) [1],
       Broadcast (Post (ascii ''=== SuperCollider server booted ==='')) [1]])"
  by code_simp

theorem first_message_is_status_witness:
  "snd (run (ascii ''/tmp'') init
     ([StartSclang 7, Connection 1, Output (ascii ''compile done''),
       Output (ascii ''=== SuperCollider server booted ==='')] @ [Connection 2]))
   = [Spawn 7, Send 1 (Status False),
      StdinWrite 7 (ascii ''load('' @ [DQUOTE] @ ascii ''/home/scuser/sc/startup.scd''
                    @ [DQUOTE] @ ascii '');'' @ [LF]),
      Broadcast (Post (ascii ''compile done'')) [1], Broadcast (Status True) [1],
      Broadcast (Post (ascii ''=== SuperCollider server booted ==='')) [1]]
     @ [Send 2 (Status True)]"
proof -
  have a: "\<forall>e\<in>set [StartSclang 7, Connection 1, Output (ascii ''compile done''),
             Output (ascii ''=== SuperCollider server booted ==='')]. \<not> about 2 e"
    by simp
  show ?thesis using first_message_is_status [OF a example_boot] by simp
qed

lemma path_normalize_absolute:
  "path \<noteq> [] \<Longrightarrow> hd path = SLASH \<Longrightarrow> hd (path_normalize path) = SLASH"
  by (simp add: path_normalize_def Let_def ascii_def SLASH_def)

lemma eval_name_not_empty: "eval_name now n \<noteq> []"
  by (simp add: eval_name_def ascii_def)

text \<open>
  C1. An \<open>eval\<close> request with a code string that arrives while \<open>sclangAlive\<close> is set and
  the child handle is there has exactly three effects, in this order: one file is
  written, named \<open>sc_eval_<now>_<counter>.scd\<close> in the staging directory, whose
  contents are \<open>(\<close>, a newline, the code without its trailing white space, a newline,
  \<open>)\<close> and a newline; one line \<open>load("<file>");\<close> naming that file is written to the
  child's stdin; and the removal of the file is scheduled 15000 ms later. The counter
  is incremented. The file's path is absolute when the staging directory is.
\<close>

theorem eval_accepted:
  assumes "sclangAlive s" and "sclangProc s = Some p"
  shows "step tmp s (Message c now (Eval (Some code))) =
     Inr (s\<lparr>evalCounter := js_incr (evalCounter s)\<rparr>,
          [WriteFile (path_join tmp (eval_name now (evalCounter s)))
             (ascii ''('' @ [LF] @ trimEnd code @ [LF] @ ascii '')'' @ [LF]),
           StdinWrite p
             (ascii ''load('' @ JSON_stringify (path_join tmp (eval_name now (evalCounter s)))
              @ ascii '');'' @ [LF]),
           SetTimeoutUnlink (path_join tmp (eval_name now (evalCounter s))) 15000])
     \<and> (tmp \<noteq> [] \<and> hd tmp = SLASH \<longrightarrow>
          hd (path_join tmp (eval_name now (evalCounter s))) = SLASH)"
proof -
  have "tmp \<noteq> [] \<Longrightarrow> hd tmp = SLASH \<Longrightarrow>
        hd (path_join tmp (eval_name now (evalCounter s))) = SLASH"
    using path_normalize_absolute [of "tmp @ SLASH # eval_name now (evalCounter s)"]
    by (simp add: path_join_def eval_name_not_empty)
  then show ?thesis
    using assms
    by (simp add: step_def on_message_def evalCode_def wrap_block_def load_cmd_def Let_def)
qed

theorem eval_accepted_witness:
  "step (ascii ''/tmp'')
     \<lparr>clients = [\<lparr>ws_id = 1, readyState = 1\<rparr>], evalCounter = 0, sclangProc = Some 7,
      sclangAlive = True, startupSent = True\<rparr>
     (Message 1 1234 (Eval (Some (ascii ''1 + 1;''))))
   = Inr (\<lparr>clients = [\<lparr>ws_id = 1, readyState = 1\<rparr>], evalCounter = 1, sclangProc = Some 7,
           sclangAlive = True, startupSent = True\<rparr>,
          [WriteFile (ascii ''/tmp/sc_eval_1234_0.scd'')
             (ascii ''('' @ [LF] @ ascii ''1 + 1;'' @ [LF] @ ascii '')'' @ [LF]),
           StdinWrite 7
             (ascii ''load('' @ [DQUOTE] @ ascii ''/tmp/sc_eval_1234_0.scd'' @ [DQUOTE]
              @ ascii '');'' @ [LF]),
           SetTimeoutUnlink (ascii ''/tmp/sc_eval_1234_0.scd'') 15000])"
proof -
  have f: "path_join (ascii ''/tmp'') (eval_name 1234 0) = ascii ''/tmp/sc_eval_1234_0.scd''"
    by code_simp
  have t: "trimEnd (ascii ''1 + 1;'') = ascii ''1 + 1;''"
    by code_simp
  have j: "JSON_stringify (ascii ''/tmp/sc_eval_1234_0.scd'')
           = [DQUOTE] @ ascii ''/tmp/sc_eval_1234_0.scd'' @ [DQUOTE]"
    by code_simp
  show ?thesis
    using eval_accepted [of "\<lparr>clients = [\<lparr>ws_id = 1, readyState = 1\<rparr>], evalCounter = 0,
      sclangProc = Some 7, sclangAlive = True, startupSent = True\<rparr>" 7 "ascii ''/tmp''" 1 1234
      "ascii ''1 + 1;''"]
    by (simp add: f t j js_incr_def)
qed

text \<open>
  The code is not wrapped as it is: \<open>trimEnd\<close> takes its trailing white space away
  first. For the code \<open>1 + 1;\<close> followed by a newline the file holds the same text as
  for \<open>1 + 1;\<close>.
\<close>

theorem eval_wrap_counterexample:
  "step (ascii ''/tmp'')
     \<lparr>clients = [\<lparr>ws_id = 1, readyState = 1\<rparr>], evalCounter = 0, sclangProc = Some 7,
      sclangAlive = True, startupSent = True\<rparr>
     (Message 1 1234 (Eval (Some (ascii ''1 + 1;'' @ [LF]))))
   = Inr (\<lparr>clients = [\<lparr>ws_id = 1, readyState = 1\<rparr>], evalCounter = 1, sclangProc = Some 7,
           sclangAlive = True, startupSent = True\<rparr>,
          [WriteFile (ascii ''/tmp/sc_eval_1234_0.scd'')
             (ascii ''('' @ [LF] @ ascii ''1 + 1;'' @ [LF] @ ascii '')'' @ [LF]),
           StdinWrite 7
             (ascii ''load('' @ [DQUOTE] @ ascii ''/tmp/sc_eval_1234_0.scd'' @ [DQUOTE]
              @ ascii '');'' @ [LF]),
           SetTimeoutUnlink (ascii ''/tmp/sc_eval_1234_0.scd'') 15000])
   \<and> ascii ''('' @ [LF] @ ascii ''1 + 1;'' @ [LF] @ ascii '')'' @ [LF]
     \<noteq> ascii ''('' @ [LF] @ (ascii ''1 + 1;'' @ [LF]) @ [LF] @ ascii '')'' @ [LF]"
proof -
  have f: "path_join (ascii ''/tmp'') (eval_name 1234 0) = ascii ''/tmp/sc_eval_1234_0.scd''"
    by code_simp
  have t: "trimEnd (ascii ''1 + 1;'' @ [LF]) = ascii ''1 + 1;''"
    by code_simp
  have j: "JSON_stringify (ascii ''/tmp/sc_eval_1234_0.scd'')
           = [DQUOTE] @ ascii ''/tmp/sc_eval_1234_0.scd'' @ [DQUOTE]"
    by code_simp
  have n: "ascii ''('' @ [LF] @ ascii ''1 + 1;'' @ [LF] @ ascii '')'' @ [LF]
     \<noteq> ascii ''('' @ [LF] @ (ascii ''1 + 1;'' @ [LF]) @ [LF] @ ascii '')'' @ [LF]"
    by (simp add: ascii_def LF_def)
  have "step (ascii ''/tmp'')
     \<lparr>clients = [\<lparr>ws_id = 1, readyState = 1\<rparr>], evalCounter = 0, sclangProc = Some 7,
      sclangAlive = True, startupSent = True\<rparr>
     (Message 1 1234 (Eval (Some (ascii ''1 + 1;'' @ [LF]))))
   = Inr (\<lparr>clients = [\<lparr>ws_id = 1, readyState = 1\<rparr>], evalCounter = 1, sclangProc = Some 7,
           sclangAlive = True, startupSent = True\<rparr>,
          [WriteFile (ascii ''/tmp/sc_eval_1234_0.scd'')
             (ascii ''('' @ [LF] @ ascii ''1 + 1;'' @ [LF] @ ascii '')'' @ [LF]),
           StdinWrite 7
             (ascii ''load('' @ [DQUOTE] @ ascii ''/tmp/sc_eval_1234_0.scd'' @ [DQUOTE]
              @ ascii '');'' @ [LF]),
           SetTimeoutUnlink (ascii ''/tmp/sc_eval_1234_0.scd'') 15000])"
    by (simp add: step_def on_message_def evalCode_def Let_def wrap_block_def load_cmd_def
        js_incr_def f t j)
  from this n show ?thesis by (rule conjI)
qed

subsection \<open>Output of the child\<close>

text \<open>
  C9. Every chunk of the child's output, when the handler does not throw, is scanned
  for both markers (the flags \<open>startupSent\<close> and \<open>sclangAlive\<close> are set when the chunk
  contains the marker) and is sanitized; a \<open>post\<close> with the sanitized text is broadcast
  when that text is not empty, and no \<open>post\<close> is broadcast when it is empty. With a
  child handle the handler does not throw.
\<close>

theorem output_chunk:
  "(sclangProc s = Some p \<longrightarrow> (\<exists>s' fx. step tmp s (Output raw) = Inr (s', fx)))
   \<and> (step tmp s (Output raw) = Inr (s', fx) \<longrightarrow>
        startupSent s' = (startupSent s \<or> str_includes raw compile_marker)
        \<and> sclangAlive s' = (sclangAlive s \<or> str_includes raw boot_marker)
        \<and> filter is_post fx =
            (if sanitize raw = [] then []
             else [Broadcast (Post (sanitize raw))
                     (map ws_id (filter (\<lambda>w. readyState w = 1) (clients s)))]))"
  by (auto simp: step_def handleOutput_def Let_def broadcast_def split: if_splits option.splits)

theorem output_chunk_witness:
  "step (ascii ''/tmp'')
     \<lparr>clients = [\<lparr>ws_id = 1, readyState = 1\<rparr>], evalCounter = 0, sclangProc = Some 7,
      sclangAlive = True, startupSent = True\<rparr> (Output (ascii ''sc3> -> 2'' @ [CR, LF]))
   = Inr (\<lparr>clients = [\<lparr>ws_id = 1, readyState = 1\<rparr>], evalCounter = 0, sclangProc = Some 7,
           sclangAlive = True, startupSent = True\<rparr>,
          [Broadcast (Post (ascii ''-> 2'' @ [LF])) [1]])
   \<and> filter is_post [Broadcast (Post (ascii ''-> 2'' @ [LF])) [1]]
     = [Broadcast (Post (ascii ''-> 2'' @ [LF])) [1]]"
proof -
  have e: "step (ascii ''/tmp'')
     \<lparr>clients = [\<lparr>ws_id = 1, readyState = 1\<rparr>], evalCounter = 0, sclangProc = Some 7,
      sclangAlive = True, startupSent = True\<rparr> (Output (ascii ''sc3> -> 2'' @ [CR, LF]))
   = Inr (\<lparr>clients = [\<lparr>ws_id = 1, readyState = 1\<rparr>], evalCounter = 0, sclangProc = Some 7,
           sclangAlive = True, startupSent = True\<rparr>,
          [Broadcast (Post (ascii ''-> 2'' @ [LF])) [1]])"
    by code_simp
  have z: "sanitize (ascii ''sc3> -> 2'' @ [CR, LF]) = ascii ''-> 2'' @ [LF]"
    by code_simp
  have n: "ascii ''-> 2'' @ [LF] \<noteq> []"
    by simp
  show ?thesis
    using e output_chunk [of "\<lparr>clients = [\<lparr>ws_id = 1, readyState = 1\<rparr>], evalCounter = 0,
      sclangProc = Some 7, sclangAlive = True, startupSent = True\<rparr>" 7 "ascii ''/tmp''"
      "ascii ''sc3> -> 2'' @ [CR, LF]"
      "\<lparr>clients = [\<lparr>ws_id = 1, readyState = 1\<rparr>], evalCounter = 0, sclangProc = Some 7,
           sclangAlive = True, startupSent = True\<rparr>"
      "[Broadcast (Post (ascii ''-> 2'' @ [LF])) [1]]"]
    by (simp add: z n)
qed

text \<open>
  A chunk that holds the prompt only, \<open>sc3> \<close>, sanitizes to the empty string: the
  handler broadcasts nothing for it.
\<close>

theorem output_chunk_counterexample:
  "step (ascii ''/tmp'')
     \<lparr>clients = [\<lparr>ws_id = 1, readyState = 1\<rparr>], evalCounter = 0, sclangProc = Some 7,
      sclangAlive = True, startupSent = True\<rparr> (Output (ascii ''sc3> ''))
   = Inr (\<lparr>clients = [\<lparr>ws_id = 1, readyState = 1\<rparr>], evalCounter = 0, sclangProc = Some 7,
           sclangAlive = True, startupSent = True\<rparr>, [])"
  by code_simp

lemma str_includes_sublist: "str_includes s p = sublist p s"
  by (induction s) (auto simp: sublist_Cons_right)

lemma handleOutput_flags:
  assumes "handleOutput s raw = Inr (s', fx)"
  shows "startupSent s' = (startupSent s \<or> str_includes raw compile_marker)"
    and "sclangAlive s' = (sclangAlive s \<or> str_includes raw boot_marker)"
    and "sclangProc s' = sclangProc s"
    and "length (filter is_status_true fx) = (if \<not> sclangAlive s \<and> str_includes raw boot_marker then 1 else 0)"
  using assms
  by (auto simp: handleOutput_def Let_def broadcast_def split: if_splits option.splits)

lemma handleOutput_total:
  "sclangProc s = Some p \<Longrightarrow> \<exists>s' fx. handleOutput s raw = Inr (s', fx)"
  by (auto simp: handleOutput_def Let_def split: if_splits option.splits)

lemma run_outputs:
  "sclangProc s = Some p \<Longrightarrow>
   \<exists>s' fx. run tmp s (map Output chunks) = (Inr s', fx)
     \<and> startupSent s' = (startupSent s \<or> (\<exists>raw\<in>set chunks. str_includes raw compile_marker))
     \<and> sclangAlive s' = (sclangAlive s \<or> (\<exists>raw\<in>set chunks. str_includes raw boot_marker))
     \<and> sclangProc s' = Some p"
proof (induction chunks arbitrary: s)
  case Nil
  then show ?case by simp
next
  case (Cons raw chunks)
  from handleOutput_total [OF Cons.prems, of raw]
  obtain s1 fx1 where h: "handleOutput s raw = Inr (s1, fx1)" by blast
  have p1: "sclangProc s1 = Some p"
    using handleOutput_flags(3) [OF h] Cons.prems by simp
  from Cons.IH [OF p1] obtain s2 fx2 where
    r: "run tmp s1 (map Output chunks) = (Inr s2, fx2)"
    and a: "startupSent s2 = (startupSent s1 \<or> (\<exists>raw\<in>set chunks. str_includes raw compile_marker))"
    and b: "sclangAlive s2 = (sclangAlive s1 \<or> (\<exists>raw\<in>set chunks. str_includes raw boot_marker))"
    and c: "sclangProc s2 = Some p"
    by blast
  have "run tmp s (map Output (raw # chunks)) = (Inr s2, fx1 @ fx2)"
    using h r by (simp add: step_def)
  moreover have "startupSent s2 = (startupSent s \<or> (\<exists>x\<in>set (raw # chunks). str_includes x compile_marker))"
    using a handleOutput_flags(1) [OF h] by auto
  moreover have "sclangAlive s2 = (sclangAlive s \<or> (\<exists>x\<in>set (raw # chunks). str_includes x boot_marker))"
    using b handleOutput_flags(2) [OF h] by auto
  ultimately show ?case using c by blast
qed

text \<open>
  C2. Marker detection is per chunk: \<open>handleOutput\<close> tests \<open>raw.includes(marker)\<close> on
  each chunk by itself and keeps nothing of a chunk for the next one. With a child
  handle, after any sequence of chunks \<open>startupSent\<close> (respectively \<open>sclangAlive\<close>) is
  set exactly when it was set before or one single chunk contains the whole compile
  marker (respectively boot marker).
\<close>

theorem marker_detection_per_chunk:
  assumes "sclangProc s = Some p" and "run tmp s (map Output chunks) = (r, fx)"
  shows "\<exists>s'. r = Inr s'
     \<and> startupSent s' = (startupSent s \<or> (\<exists>raw\<in>set chunks. sublist compile_marker raw))
     \<and> sclangAlive s' = (sclangAlive s \<or> (\<exists>raw\<in>set chunks. sublist boot_marker raw))"
  using run_outputs [OF assms(1), of tmp chunks] assms(2)
  by (auto simp: str_includes_sublist)

theorem marker_detection_per_chunk_witness:
  "\<exists>s'. Inr \<lparr>clients = [\<lparr>ws_id = 1, readyState = 1\<rparr>], evalCounter = 0, sclangProc = Some 7,
             sclangAlive = True, startupSent = True\<rparr> = Inr s'
     \<and> sclangAlive s' =
         (False \<or> (\<exists>raw\<in>set [ascii ''sc3> '', ascii ''=== SuperCollider server booted ===''].
                     sublist boot_marker raw))"
proof -
  have r: "run (ascii ''/tmp'')
      \<lparr>clients = [\<lparr>ws_id = 1, readyState = 1\<rparr>], evalCounter = 0, sclangProc = Some 7,
       sclangAlive = False, startupSent = True\<rparr>
      (map Output [ascii ''sc3> '', ascii ''=== SuperCollider server booted ===''])
    = (Inr \<lparr>clients = [\<lparr>ws_id = 1, readyState = 1\<rparr>], evalCounter = 0, sclangProc = Some 7,
            sclangAlive = True, startupSent = True\<rparr>,
       [Broadcast (Status True) [1],
        Broadcast (Post (ascii ''=== SuperCollider server booted ==='')) [1]])"
    by code_simp
  have p: "sclangProc \<lparr>clients = [\<lparr>ws_id = 1, readyState = 1\<rparr>], evalCounter = 0,
       sclangProc = Some 7, sclangAlive = False, startupSent = True\<rparr> = Some 7"
    by simp
  show ?thesis
    using marker_detection_per_chunk [OF p r] by auto
qed

text \<open>
  The same output in two partitions: as one chunk the boot marker is detected, split
  after \<open>server \<close> it is not, and the bridge stays not alive.
\<close>

theorem marker_split_counterexample:
  "run (ascii ''/tmp'')
      \<lparr>clients = [\<lparr>ws_id = 1, readyState = 1\<rparr>], evalCounter = 0, sclangProc = Some 7,
       sclangAlive = False, startupSent = True\<rparr>
      [Output (ascii ''=== SuperCollider server booted ==='')]
    = (Inr \<lparr>clients = [\<lparr>ws_id = 1, readyState = 1\<rparr>], evalCounter = 0, sclangProc = Some 7,
            sclangAlive = True, startupSent = True\<rparr>,
       [Broadcast (Status True) [1],
        Broadcast (Post (ascii ''=== SuperCollider server booted ==='')) [1]])
   \<and> run (ascii ''/tmp'')
      \<lparr>clients = [\<lparr>ws_id = 1, readyState = 1\<rparr>], evalCounter = 0, sclangProc = Some 7,
       sclangAlive = False, startupSent = True\<rparr>
      [Output (ascii ''=== SuperCollider server ''), Output (ascii ''booted ==='')]
    = (Inr \<lparr>clients = [\<lparr>ws_id = 1, readyState = 1\<rparr>], evalCounter = 0, sclangProc = Some 7,
            sclangAlive = False, startupSent = True\<rparr>,
       [Broadcast (Post (ascii ''=== SuperCollider server '')) [1],
        Broadcast (Post (ascii ''booted ==='')) [1]])
   \<and> ascii ''=== SuperCollider server '' @ ascii ''booted ===''
     = ascii ''=== SuperCollider server booted ==='' "
  by code_simp

lemma step_status_true:
  assumes "step tmp s e = Inr (s', fx)" and "\<not> is_exit e"
  shows "sclangAlive s' = (sclangAlive s \<or> boots e)
     \<and> length (filter is_status_true fx) = (if \<not> sclangAlive s \<and> boots e then 1 else 0)"
proof (cases e)
  case (Output raw)
  with assms show ?thesis
    using handleOutput_flags(2,4) [of s raw s' fx] by (simp add: step_def)
next
  case (Message d now m)
  with assms show ?thesis
    by (cases m) (auto simp: step_def on_message_def evalCode_def Let_def split: if_splits option.splits)
qed (use assms in \<open>auto simp: step_def startSclang_def on_connection_def on_close_def\<close>)

lemma cycle_status_true:
  "\<forall>e\<in>set es. \<not> is_exit e \<Longrightarrow> run tmp s es = (Inr s', fx) \<Longrightarrow>
   length (filter is_status_true fx) = (if \<not> sclangAlive s \<and> (\<exists>e\<in>set es. boots e) then 1 else 0)"
proof (induction es arbitrary: s fx)
  case Nil
  then show ?case by simp
next
  case (Cons e es)
  from Cons.prems(2) obtain s1 fx1 where st: "step tmp s e = Inr (s1, fx1)"
    by (cases "step tmp s e") auto
  from Cons.prems(2) st obtain fx2 where r: "run tmp s1 es = (Inr s', fx2)" and fx: "fx = fx1 @ fx2"
    by (cases "run tmp s1 es") auto
  from Cons.prems(1) have ne: "\<not> is_exit e" and nes: "\<forall>e\<in>set es. \<not> is_exit e" by simp_all
  note a = step_status_true [OF st ne]
  note b = Cons.IH [OF nes r]
  show ?case using a b fx by auto
qed






subsection \<open>The help server\<close>

lemma split_sep_not_empty: "split_sep s \<noteq> []"
  by (induction s) (auto split: list.splits)

lemma split_sep_append: "split_sep (a @ SLASH # b) = split_sep a @ split_sep b"
  by (induction a) (auto simp: split_sep_not_empty split: list.splits)

lemma split_sep_no_slash: "seg \<in> set (split_sep s) \<Longrightarrow> SLASH \<notin> set seg"
  by (induction s arbitrary: seg) (auto split: list.splits if_splits)

lemma split_sep_plain: "SLASH \<notin> set seg \<Longrightarrow> split_sep seg = [seg]"
  by (induction seg) auto

lemma split_join:
  "segs \<noteq> [] \<Longrightarrow> \<forall>seg\<in>set segs. SLASH \<notin> set seg \<Longrightarrow> split_sep (join_sep segs) = segs"
  by (induction segs rule: join_sep.induct) (auto simp: split_sep_append split_sep_plain)

lemma join_sep_append:
  "hs \<noteq> [] \<Longrightarrow> join_sep (hs @ segs) = join_sep hs @ concat (map ((#) SLASH) segs)"
proof (induction hs rule: join_sep.induct)
  case (2 seg)
  then show ?case by (induction segs rule: join_sep.induct) auto
qed auto

lemma norm_segs_segments:
  "\<forall>seg\<in>set res. is_segment seg \<Longrightarrow> \<forall>seg\<in>set segs. SLASH \<notin> set seg \<Longrightarrow>
   \<forall>seg\<in>set (norm_segs False res segs). is_segment seg"
proof (induction segs arbitrary: res)
  case Nil
  then show ?case by simp
next
  case (Cons seg segs)
  have b: "\<forall>x\<in>set (butlast res). is_segment x"
    using Cons.prems(1) by (auto dest: in_set_butlastD)
  have a: "seg \<noteq> [] \<Longrightarrow> seg \<noteq> ascii ''.'' \<Longrightarrow> seg \<noteq> ascii ''..'' \<Longrightarrow> \<forall>x\<in>set (res @ [seg]). is_segment x"
    using Cons.prems by (auto simp: is_segment_def)
  show ?case
    using Cons.IH [of res] Cons.IH [OF b] Cons.IH [OF a] Cons.prems
    by auto
qed

lemma normalizeString_segments:
  "\<exists>segs. normalizeString path False = join_sep segs \<and> (\<forall>seg\<in>set segs. is_segment seg)"
  unfolding normalizeString_def
  using norm_segs_segments [of "[]" "split_sep path"] split_sep_no_slash by auto

lemma HELP_DIR_segments:
  "HELP_DIR = SLASH # join_sep [ascii ''usr'', ascii ''local'', ascii ''share'', ascii ''SuperCollider'', ascii ''Help'']"
  by (simp add: HELP_DIR_def ascii_def SLASH_def)

lemma path_resolve_absolute:
  assumes "a \<noteq> []" and "hd a = SLASH" and "b = [] \<or> hd b \<noteq> SLASH"
  shows "\<exists>path. path_resolve cwd a b = SLASH # normalizeString path False"
proof (cases "b = []")
  case True
  with assms have "path_resolve cwd a b = SLASH # normalizeString (a @ [SLASH]) False"
    by (simp add: path_resolve_def)
  then show ?thesis by blast
next
  case False
  with assms have "path_resolve cwd a b = SLASH # normalizeString (a @ SLASH # b @ [SLASH]) False"
    by (simp add: path_resolve_def)
  then show ?thesis by blast
qed

lemma help_filePath_absolute:
  "\<exists>path. help_filePath ex cwd url = SLASH # normalizeString path False"
proof -
  have h: "HELP_DIR \<noteq> []" "hd HELP_DIR = SLASH"
    by (simp_all add: HELP_DIR_def ascii_def SLASH_def)
  have d: "dropWhile (\<lambda>c. c = SLASH) r = [] \<or> hd (dropWhile (\<lambda>c. c = SLASH) r) \<noteq> SLASH" for r
    using hd_dropWhile [of "\<lambda>c. c = SLASH" r] by blast
  show ?thesis
    unfolding help_filePath_def Let_def
    by (rule path_resolve_absolute [OF h d])
qed

lemma inside_help_segments:
  assumes "\<forall>seg\<in>set segs. is_segment seg"
    and "SLASH # join_sep segs = HELP_DIR \<or> prefix (HELP_DIR @ [SLASH]) (SLASH # join_sep segs)"
  shows "\<exists>more. SLASH # join_sep segs = HELP_DIR @ concat (map ((#) SLASH) more) \<and> (\<forall>seg\<in>set more. is_segment seg)"
proof -
  let ?hs = "[ascii ''usr'', ascii ''local'', ascii ''share'', ascii ''SuperCollider'', ascii ''Help'']"
  from assms(2) show ?thesis
  proof
    assume "SLASH # join_sep segs = HELP_DIR"
    then have "SLASH # join_sep segs = HELP_DIR @ concat (map ((#) SLASH) [])" by simp
    then show ?thesis by (metis empty_iff list.set(1))
  next
    assume "prefix (HELP_DIR @ [SLASH]) (SLASH # join_sep segs)"
    then obtain rest where r: "join_sep segs = join_sep ?hs @ SLASH # rest"
      by (auto simp: prefix_def HELP_DIR_segments)
    then have ne: "segs \<noteq> []" by auto
    have ns: "\<forall>seg\<in>set segs. SLASH \<notin> set seg" using assms(1) by (simp add: is_segment_def)
    have hs: "split_sep (join_sep ?hs) = ?hs"
      by (rule split_join) (auto simp: ascii_def SLASH_def)
    have "segs = split_sep (join_sep segs)" using split_join [OF ne ns] by simp
    also have "\<dots> = ?hs @ split_sep rest" using r hs by (simp only: split_sep_append)
    finally have s: "segs = ?hs @ split_sep rest" .
    then have "SLASH # join_sep segs = HELP_DIR @ concat (map ((#) SLASH) (split_sep rest))"
      using join_sep_append [of ?hs "split_sep rest"] by (simp add: HELP_DIR_segments)
    moreover have "\<forall>seg\<in>set (split_sep rest). is_segment seg"
      using assms(1) s by (metis Un_iff set_append)
    ultimately show ?thesis by blast
  qed
qed

text \<open>
  C10. A request whose URL does not start with \<open>/help\<close> is answered 404. A request
  under \<open>/help\<close> whose resolved path is neither \<open>HELP_DIR\<close> nor below
  \<open>HELP_DIR/\<close> is answered 403, and no file is read. When the handler does read a
  file, its path is the resolved path, and it is \<open>HELP_DIR\<close> followed by segments
  that name entries (none is empty, \<open>.\<close> or \<open>..\<close>): the path lies in the help
  directory.
\<close>

theorem help_server_confined:
  "(\<not> prefix (ascii ''/help'') url \<longrightarrow> http_handler ex cwd url = NotFound404)
   \<and> (prefix (ascii ''/help'') url \<and> help_filePath ex cwd url \<noteq> HELP_DIR
        \<and> \<not> prefix (HELP_DIR @ [SLASH]) (help_filePath ex cwd url)
      \<longrightarrow> http_handler ex cwd url = Forbidden403)
   \<and> (http_handler ex cwd url = ReadFile p \<longrightarrow>
        p = help_filePath ex cwd url
        \<and> (\<exists>more. p = HELP_DIR @ concat (map ((#) SLASH) more) \<and> (\<forall>seg\<in>set more. is_segment seg)))"
proof (intro conjI impI)
  assume r: "http_handler ex cwd url = ReadFile p"
  then show p: "p = help_filePath ex cwd url"
    by (auto simp: http_handler_def Let_def split: if_splits)
  from r have i: "p = HELP_DIR \<or> prefix (HELP_DIR @ [SLASH]) p"
    by (auto simp: http_handler_def Let_def split: if_splits)
  obtain path where "p = SLASH # normalizeString path False"
    using p help_filePath_absolute [of ex cwd url] by auto
  then obtain segs where "p = SLASH # join_sep segs" and "\<forall>seg\<in>set segs. is_segment seg"
    using normalizeString_segments by metis
  then show "\<exists>more. p = HELP_DIR @ concat (map ((#) SLASH) more) \<and> (\<forall>seg\<in>set more. is_segment seg)"
    using inside_help_segments [of segs] i by auto
qed (auto simp: http_handler_def Let_def)

theorem help_server_confined_witness:
  "http_handler (\<lambda>p. False) [] (ascii ''/index.html'') = NotFound404
   \<and> http_handler (\<lambda>p. False) [] (ascii ''/help/../../../../etc/passwd'') = Forbidden403
   \<and> (\<exists>more. ascii ''/usr/local/share/SuperCollider/Help/Classes/SinOsc.html''
                = HELP_DIR @ concat (map ((#) SLASH) more)
          \<and> (\<forall>seg\<in>set more. is_segment seg))"
proof -
  have a: "\<not> prefix (ascii ''/help'') (ascii ''/index.html'')"
    by code_simp
  have b: "prefix (ascii ''/help'') (ascii ''/help/../../../../etc/passwd'')
           \<and> help_filePath (\<lambda>p. False) [] (ascii ''/help/../../../../etc/passwd'') \<noteq> HELP_DIR
           \<and> \<not> prefix (HELP_DIR @ [SLASH])
                 (help_filePath (\<lambda>p. False) [] (ascii ''/help/../../../../etc/passwd''))"
    by code_simp
  have c: "http_handler (\<lambda>p. False) [] (ascii ''/help/Classes/SinOsc.html'')
           = ReadFile (ascii ''/usr/local/share/SuperCollider/Help/Classes/SinOsc.html'')"
    by code_simp
  note t1 = help_server_confined [where url = "ascii ''/index.html''" and ex = "\<lambda>p. False"
        and cwd = "[]", THEN conjunct1, rule_format, OF a]
  note t2 = help_server_confined [where url = "ascii ''/help/../../../../etc/passwd''"
        and ex = "\<lambda>p. False" and cwd = "[]", THEN conjunct2, THEN conjunct1, rule_format, OF b]
  note t3 = help_server_confined [where url = "ascii ''/help/Classes/SinOsc.html''"
        and ex = "\<lambda>p. False" and cwd = "[]", THEN conjunct2, THEN conjunct2, rule_format,
        OF c, THEN conjunct2]
  from t1 t2 t3 show ?thesis by (intro conjI)
qed

subsection \<open>Names of staging files\<close>

declare show_nat.simps [simp del]

lemma digit_cases:
  "d < 10 \<Longrightarrow> digit d \<in> {0x30, 0x31, 0x32, 0x33, 0x34, 0x35, 0x36, 0x37, 0x38, 0x39}"
proof -
  assume "d < 10"
  then have "d = 0 \<or> d = 1 \<or> d = 2 \<or> d = 3 \<or> d = 4 \<or> d = 5 \<or> d = 6 \<or> d = 7 \<or> d = 8 \<or> d = 9"
    by arith
  then show ?thesis
    by (elim disjE) (simp_all add: digit_def)
qed

lemma digit_inj:
  assumes "d < 10" and "e < 10" and "digit d = digit e"
  shows "d = e"
proof -
  from assms(3) have "(of_nat d :: 16 word) = of_nat e"
    by (simp add: digit_def)
  then have "unat (of_nat d :: 16 word) = unat (of_nat e :: 16 word)"
    by simp
  with assms(1,2) show ?thesis
    by (simp add: unat_of_nat)
qed

lemma show_nat_not_empty: "show_nat n \<noteq> []"
  by (subst show_nat.simps) simp

lemma show_nat_chars:
  "c \<in> set (show_nat n) \<Longrightarrow> c \<in> {0x30, 0x31, 0x32, 0x33, 0x34, 0x35, 0x36, 0x37, 0x38, 0x39}"
proof (induction n rule: show_nat.induct)
  case (1 n)
  show ?case
  proof (cases "n < 10")
    case True
    with "1.prems" have "c = digit n" by (subst (asm) show_nat.simps) simp
    with True show ?thesis using digit_cases [of n] by simp
  next
    case False
    with "1.prems" have "c \<in> set (show_nat (n div 10)) \<or> c = digit (n mod 10)"
      by (subst (asm) show_nat.simps) auto
    then show ?thesis
    proof
      assume "c \<in> set (show_nat (n div 10))"
      with "1.IH" False show ?thesis by blast
    next
      assume "c = digit (n mod 10)"
      then show ?thesis using digit_cases [of "n mod 10"] by simp
    qed
  qed
qed

lemma show_nat_inj: "show_nat n = show_nat m \<Longrightarrow> n = m"
proof (induction n arbitrary: m rule: show_nat.induct)
  case (1 n)
  show ?case
  proof (cases "n < 10")
    case n: True
    show ?thesis
    proof (cases "m < 10")
      case True
      with n "1.prems" have "digit n = digit m"
        by (simp add: show_nat.simps [of n] show_nat.simps [of m])
      with n True show ?thesis by (rule digit_inj)
    next
      case False
      with n "1.prems" have "[digit n] = show_nat (m div 10) @ [digit (m mod 10)]"
        by (simp add: show_nat.simps [of n] show_nat.simps [of m])
      then show ?thesis using show_nat_not_empty [of "m div 10"] by simp
    qed
  next
    case n: False
    show ?thesis
    proof (cases "m < 10")
      case True
      with n "1.prems" have "show_nat (n div 10) @ [digit (n mod 10)] = [digit m]"
        by (simp add: show_nat.simps [of n] show_nat.simps [of m])
      then show ?thesis using show_nat_not_empty [of "n div 10"] by simp
    next
      case False
      with n "1.prems" have "show_nat (n div 10) @ [digit (n mod 10)] = show_nat (m div 10) @ [digit (m mod 10)]"
        by (simp add: show_nat.simps [of n] show_nat.simps [of m])
      then have a: "show_nat (n div 10) = show_nat (m div 10)" and b: "digit (n mod 10) = digit (m mod 10)"
        by simp_all
      from "1.IH" [OF n a] have "n div 10 = m div 10" .
      moreover from b have "n mod 10 = m mod 10" by (intro digit_inj) simp_all
      ultimately show ?thesis by (metis div_mult_mod_eq)
    qed
  qed
qed

lemma after_last_separator:
  assumes "xs @ u # ys = xs' @ u # ys'" and "u \<notin> set ys" and "u \<notin> set ys'"
  shows "ys = ys'"
proof -
  have a: "takeWhile (\<lambda>c. c \<noteq> u) (rev ys @ u # rev xs) = rev ys"
    using assms(2) by (auto simp add: takeWhile_tail)
  have b: "takeWhile (\<lambda>c. c \<noteq> u) (rev ys' @ u # rev xs') = rev ys'"
    using assms(3) by (auto simp add: takeWhile_tail)
  from assms(1) have "rev (xs @ u # ys) = rev (xs' @ u # ys')"
    by (rule arg_cong)
  then have "rev ys @ u # rev xs = rev ys' @ u # rev xs'"
    by simp
  with a b have "rev ys = rev ys'"
    by simp
  then show ?thesis by simp
qed

lemma eval_name_inj:
  assumes "eval_name now n = eval_name now' n'"
  shows "n = n'"
proof -
  from assms have "(ascii ''sc_eval_'' @ show_int now @ ascii ''_'' @ show_nat n) @ ascii ''.scd''
      = (ascii ''sc_eval_'' @ show_int now' @ ascii ''_'' @ show_nat n') @ ascii ''.scd''"
    by (simp add: eval_name_def)
  then have "ascii ''sc_eval_'' @ show_int now @ ascii ''_'' @ show_nat n
      = ascii ''sc_eval_'' @ show_int now' @ ascii ''_'' @ show_nat n'"
    by (simp only: append_same_eq)
  then have "show_int now @ ascii ''_'' @ show_nat n = show_int now' @ ascii ''_'' @ show_nat n'"
    by (simp only: same_append_eq)
  then have e: "show_int now @ 0x5F # show_nat n = show_int now' @ 0x5F # show_nat n'"
    by (simp add: ascii_def)
  have "0x5F \<notin> set (show_nat k)" for k
    using show_nat_chars [of "0x5F" k] by auto
  then have "show_nat n = show_nat n'"
    using after_last_separator [OF e] by blast
  then show ?thesis by (rule show_nat_inj)
qed


lemma norm_segs_append:
  "norm_segs a res (xs @ ys) = norm_segs a (norm_segs a res xs) ys"
  by (induction xs arbitrary: res) auto

lemma norm_segs_segment: "is_segment seg \<Longrightarrow> norm_segs a res [seg] = res @ [seg]"
  by (simp add: is_segment_def)

lemma path_normalize_segment:
  assumes "is_segment name"
  shows "path_normalize name = name"
proof -
  from assms have n: "name \<noteq> []" "SLASH \<notin> set name" by (simp_all add: is_segment_def)
  then have h: "hd name \<noteq> SLASH" "last name \<noteq> SLASH"
    by (metis hd_in_set, metis last_in_set)
  have ns: "norm_segs True [] [name] = [name]"
    using norm_segs_segment [OF assms, of True "[]"] by (simp only: append_Nil)
  have sp: "split_sep name = [name]"
    using n(2) by (rule split_sep_plain)
  have "normalizeString name True = name"
    by (simp only: normalizeString_def sp ns join_sep.simps)
  with n h show ?thesis by (simp add: path_normalize_def Let_def)
qed

lemma path_normalize_last_segment:
  assumes "tmp \<noteq> []"
  shows "\<exists>pfx. \<forall>name. is_segment name \<longrightarrow> path_normalize (tmp @ SLASH # name) = pfx @ name"
proof -
  define a where "a = (hd tmp \<noteq> SLASH)"
  define R where "R = norm_segs a [] (split_sep tmp)"
  define pfx where "pfx = (if a then [] else [SLASH]) @ (if R = [] then [] else join_sep R @ [SLASH])"
  have "path_normalize (tmp @ SLASH # name) = pfx @ name" if seg: "is_segment name" for name
  proof -
    from seg have n: "name \<noteq> []" "SLASH \<notin> set name" by (simp_all add: is_segment_def)
    then have l: "last name \<noteq> SLASH" by (metis last_in_set)
    have sp: "split_sep (tmp @ SLASH # name) = split_sep tmp @ [name]"
      using n by (simp add: split_sep_append split_sep_plain)
    have "norm_segs a R [name] = R @ [name]"
      using seg by (rule norm_segs_segment)
    then have ns: "norm_segs a [] (split_sep tmp @ [name]) = R @ [name]"
      by (simp only: norm_segs_append R_def)
    have js: "join_sep (R @ [name]) = (if R = [] then [] else join_sep R @ [SLASH]) @ name"
      using join_sep_append [of R "[name]"] by simp
    have p: "normalizeString (tmp @ SLASH # name) a = (if R = [] then [] else join_sep R @ [SLASH]) @ name"
      by (simp only: normalizeString_def sp ns js)
    have ne: "(if R = [] then [] else join_sep R @ [SLASH]) @ name \<noteq> []"
      using n by simp
    have hd: "hd (tmp @ SLASH # name) = hd tmp" using assms by simp
    have la: "last (tmp @ SLASH # name) = last name" using n by simp
    have pn: "path_normalize (tmp @ SLASH # name) =
        (let p = normalizeString (tmp @ SLASH # name) a in if a then p else SLASH # p)"
      unfolding path_normalize_def Let_def hd la
      using p ne l by (cases a) (simp_all add: a_def)
    show ?thesis
      unfolding pn Let_def p pfx_def by simp
  qed
  then show ?thesis by blast
qed

lemma path_join_inj:
  assumes "is_segment x" and "is_segment y" and "path_join tmp x = path_join tmp y"
  shows "x = y"
proof (cases "tmp = []")
  case True
  with assms show ?thesis
    by (simp add: path_join_def path_normalize_segment is_segment_def)
next
  case False
  from path_normalize_last_segment [OF False] obtain pfx where
    "\<forall>name. is_segment name \<longrightarrow> path_normalize (tmp @ SLASH # name) = pfx @ name" ..
  with assms False show ?thesis
    by (simp add: path_join_def is_segment_def)
qed

lemma show_int_chars:
  "c \<in> set (show_int i) \<Longrightarrow> c \<in> {0x2D, 0x30, 0x31, 0x32, 0x33, 0x34, 0x35, 0x36, 0x37, 0x38, 0x39}"
  using show_nat_chars [of c "nat (- i)"] show_nat_chars [of c "nat i"]
  by (auto simp: show_int_def ascii_def split: if_splits)

lemma eval_name_segment: "is_segment (eval_name now n)"
proof -
  have "SLASH \<notin> set (show_int now)"
    using show_int_chars [of SLASH now] by (auto simp: SLASH_def)
  moreover have "SLASH \<notin> set (show_nat n)"
    using show_nat_chars [of SLASH n] by (auto simp: SLASH_def)
  ultimately show ?thesis
    by (simp add: is_segment_def eval_name_def ascii_def SLASH_def)
qed

lemma written_files_append:
  "written_files (fx @ gx) = written_files fx @ written_files gx"
  by (induction fx rule: written_files.induct) simp_all

lemma handleOutput_written:
  "handleOutput s raw = Inr (s', fx) \<Longrightarrow> written_files fx = [] \<and> evalCounter s' = evalCounter s"
  by (auto simp: handleOutput_def Let_def broadcast_def split: if_splits option.splits)

lemma js_incr_bounds: "n \<le> js_incr n \<and> js_incr n \<le> n + 1 \<and> (n < 2 ^ 53 \<longrightarrow> n < js_incr n)"
  by (simp add: js_incr_def)

lemma step_written:
  assumes "step tmp s e = Inr (s', fx)"
  shows "evalCounter s \<le> evalCounter s' \<and> evalCounter s' \<le> evalCounter s + 1
     \<and> length (written_files fx) = (if accepted_eval s e then 1 else 0)
     \<and> (written_files fx = []
        \<or> (\<exists>now. written_files fx = [path_join tmp (eval_name now (evalCounter s))]
              \<and> (evalCounter s < 2 ^ 53 \<longrightarrow> evalCounter s < evalCounter s')))"
proof (cases e)
  case (Output raw)
  with assms show ?thesis
    using handleOutput_written [of s raw s' fx] by (simp add: step_def)
next
  case (Message d now m)
  show ?thesis
  proof (cases m)
    case (Eval code)
    with Message assms show ?thesis
      using js_incr_bounds [of "evalCounter s"]
      by (cases code)
        (auto simp: step_def on_message_def evalCode_def Let_def split: if_splits option.splits)
  qed (use Message assms in \<open>auto simp: step_def on_message_def split: if_splits option.splits\<close>)
qed (use assms in \<open>auto simp: step_def startSclang_def on_exit_def on_connection_def on_close_def broadcast_def Let_def\<close>)

lemma run_written:
  "evalCounter s + length es \<le> 2 ^ 53 \<Longrightarrow> run tmp s es = (r, fx) \<Longrightarrow>
   distinct (written_files fx)
   \<and> length (written_files fx) = accepted_evals tmp s es
   \<and> (\<forall>f\<in>set (written_files fx). \<exists>now n. evalCounter s \<le> n \<and> f = path_join tmp (eval_name now n))"
proof (induction es arbitrary: s r fx)
  case Nil
  then show ?case by simp
next
  case (Cons e es)
  show ?case
  proof (cases "step tmp s e")
    case (Inl err)
    with Cons.prems show ?thesis by simp
  next
    case (Inr q)
    obtain s1 fx1 where q: "q = (s1, fx1)" by (cases q)
    obtain r2 fx2 where r2: "run tmp s1 es = (r2, fx2)" by (cases "run tmp s1 es")
    from Inr q r2 Cons.prems have fx: "fx = fx1 @ fx2" by simp
    from Inr q have st: "step tmp s e = Inr (s1, fx1)" by simp
    note a = step_written [OF st]
    from a Cons.prems(1) have bound: "evalCounter s1 + length es \<le> 2 ^ 53" by simp
    from Cons.prems(1) have small: "evalCounter s < 2 ^ 53" by simp
    note b = Cons.IH [OF bound r2]
    from a have le: "evalCounter s \<le> evalCounter s1" by simp
    have later: "\<exists>now n. evalCounter s \<le> n \<and> f = path_join tmp (eval_name now n)"
      if "f \<in> set (written_files fx2)" for f
      using b that le by (meson le_trans)
    have len: "length (written_files fx) = accepted_evals tmp s (e # es)"
      using a b fx st by (simp add: written_files_append)
    from a have "written_files fx1 = []
        \<or> (\<exists>now. written_files fx1 = [path_join tmp (eval_name now (evalCounter s))]
              \<and> evalCounter s < evalCounter s1)"
      using small by blast
    then show ?thesis
    proof (elim disjE exE conjE)
      assume "written_files fx1 = []"
      with b later fx len show ?thesis by (simp add: written_files_append)
    next
      fix now
      assume w: "written_files fx1 = [path_join tmp (eval_name now (evalCounter s))]"
        and lt: "evalCounter s < evalCounter s1"
      have "path_join tmp (eval_name now (evalCounter s)) \<notin> set (written_files fx2)"
      proof
        assume "path_join tmp (eval_name now (evalCounter s)) \<in> set (written_files fx2)"
        with b obtain now' n where n: "evalCounter s1 \<le> n"
          and eq: "path_join tmp (eval_name now (evalCounter s)) = path_join tmp (eval_name now' n)"
          by blast
        from eq have "eval_name now (evalCounter s) = eval_name now' n"
          using path_join_inj eval_name_segment by blast
        then have "evalCounter s = n" by (rule eval_name_inj)
        with n lt show False by simp
      qed
      with w b later fx len show ?thesis by (auto simp: written_files_append)
    qed
  qed
qed

text \<open>
  C8. In every run of the bridge in which the counter stays within the range a
  JavaScript number counts exactly (the counter at the start plus the number of events
  is at most \<open>2^53\<close>), \<open>evalCode\<close> writes one file for each accepted \<open>eval\<close> request,
  and these files have pairwise distinct paths, whatever \<open>Date.now()\<close> returns at
  each request (the same millisecond included): the name ends in the counter, which
  goes up with every call, and two names with different counters differ.
\<close>

theorem staging_names_distinct:
  assumes "evalCounter s + length es \<le> 2 ^ 53"
  shows "distinct (written_files (snd (run tmp s es)))
     \<and> length (written_files (snd (run tmp s es))) = accepted_evals tmp s es"
  using run_written [OF assms, of tmp "fst (run tmp s es)" "snd (run tmp s es)"] by simp

theorem staging_names_distinct_witness:
  "distinct [ascii ''/tmp/sc_eval_1234_0.scd'', ascii ''/tmp/sc_eval_1234_1.scd'']
   \<and> length [ascii ''/tmp/sc_eval_1234_0.scd'', ascii ''/tmp/sc_eval_1234_1.scd'']
     = accepted_evals (ascii ''/tmp'')
      \<lparr>clients = [\<lparr>ws_id = 1, readyState = 1\<rparr>], evalCounter = 0, sclangProc = Some 7,
       sclangAlive = True, startupSent = True\<rparr>
      [Message 1 1234 (Eval (Some (ascii ''1 + 1;''))),
       Message 2 1234 (Eval (Some (ascii ''2 + 2;'')))]"
proof -
  have f0: "path_join (ascii ''/tmp'') (eval_name 1234 0) = ascii ''/tmp/sc_eval_1234_0.scd''"
    by code_simp
  have f1: "path_join (ascii ''/tmp'') (eval_name 1234 (Suc 0)) = ascii ''/tmp/sc_eval_1234_1.scd''"
    by code_simp
  have r: "written_files (snd (run (ascii ''/tmp'')
      \<lparr>clients = [\<lparr>ws_id = 1, readyState = 1\<rparr>], evalCounter = 0, sclangProc = Some 7,
       sclangAlive = True, startupSent = True\<rparr>
      [Message 1 1234 (Eval (Some (ascii ''1 + 1;''))),
       Message 2 1234 (Eval (Some (ascii ''2 + 2;'')))]))
    = [ascii ''/tmp/sc_eval_1234_0.scd'', ascii ''/tmp/sc_eval_1234_1.scd'']"
    by (simp add: step_def on_message_def evalCode_def Let_def js_incr_def f0 f1)
  have b: "evalCounter \<lparr>clients = [\<lparr>ws_id = 1, readyState = 1\<rparr>], evalCounter = 0,
       sclangProc = Some 7, sclangAlive = True, startupSent = True\<rparr>
      + length [Message 1 1234 (Eval (Some (ascii ''1 + 1;''))),
                Message 2 1234 (Eval (Some (ascii ''2 + 2;'')))] \<le> 2 ^ 53"
    by simp
  from staging_names_distinct [OF b, of "ascii ''/tmp''"] show ?thesis
    by (simp only: r)
qed

subsection \<open>The sanitizer\<close>

















































end
